theory Spec2Isabelle
  imports Main "HOL-Library.Log_Nat"
begin

section \<open>Events and tag lookup\<close>

text \<open>
  The event shape of \<^verbatim>\<open>App.tsx\<close> (\<^verbatim>\<open>interface NostrEvent\<close>). The field \<^verbatim>\<open>id\<close> is
  called \<open>id_ev\<close> here because \<open>id\<close> is the identity function of HOL. Strings are
  character lists; \<^verbatim>\<open>created_at\<close> is an integer number of seconds.
\<close>

record NostrEvent =
  id_ev :: string
  pubkey :: string
  created_at :: int
  content :: string
  tags :: "string list list"

text \<open>
  \<^verbatim>\<open>getTagValue(ev, tag) = ev?.tags?.find((t) => t?.[0] === tag)?.[1]\<close>
  (\<^verbatim>\<open>lib/applesauce.ts\<close>): the first tag whose first element is the name; of that tag
  the second element, \<^verbatim>\<open>undefined\<close> (here \<open>None\<close>) when the tag has no second element
  or when no tag has the name. An empty tag has no first element and never matches.
\<close>

fun tag_named :: "string \<Rightarrow> string list \<Rightarrow> bool" where
  "tag_named tag [] = False"
| "tag_named tag (n # vs) = (n = tag)"

fun second :: "string list \<Rightarrow> string option" where
  "second (n # v # vs) = Some v"
| "second t = None"

definition getTagValue :: "NostrEvent \<Rightarrow> string \<Rightarrow> string option" where
  "getTagValue ev tag =
     (case find (tag_named tag) (tags ev) of
        None \<Rightarrow> None
      | Some t \<Rightarrow> second t)"

text \<open>
  JavaScript truthiness of a \<^verbatim>\<open>string | undefined\<close> (or \<^verbatim>\<open>string | null\<close>) value:
  only a non-empty string is truthy.
\<close>

fun truthy :: "string option \<Rightarrow> bool" where
  "truthy None = False"
| "truthy (Some s) = (s \<noteq> [])"

section \<open>Chatrooms\<close>

record Chatroom =
  geohash :: string
  name :: string
  messageCount :: nat

text \<open>
  \<^verbatim>\<open>roomMap\<close> is a JavaScript \<^verbatim>\<open>Map<string, Chatroom>\<close>, which iterates in the order
  in which its keys were first set. It is modelled as an association list in that order:
  \<^verbatim>\<open>has\<close> is a key test, \<^verbatim>\<open>set\<close> of a new key appends, and
  \<^verbatim>\<open>roomMap.get(geohash)!.messageCount++\<close> updates the entry where it stands.
\<close>

type_synonym roomMap = "(string \<times> Chatroom) list"

definition has :: "roomMap \<Rightarrow> string \<Rightarrow> bool" where
  "has m g = (map_of m g \<noteq> None)"

definition new_room :: "string \<Rightarrow> Chatroom" where
  "new_room g = \<lparr>geohash = g, name = CHR ''#'' # g, messageCount = 0\<rparr>"

fun increment :: "roomMap \<Rightarrow> string \<Rightarrow> roomMap" where
  "increment [] g = []"
| "increment ((k, r) # m) g =
     (if k = g then (k, r\<lparr>messageCount := messageCount r + 1\<rparr>) # m
      else (k, r) # increment m g)"

text \<open>The body of the \<^verbatim>\<open>events.forEach\<close> callback of \<^verbatim>\<open>chatrooms\<close>.\<close>

definition visit :: "roomMap \<Rightarrow> NostrEvent \<Rightarrow> roomMap" where
  "visit m event =
     (let g = getTagValue event ''g'' in
      if truthy g then
        (let k = the g;
             m1 = (if \<not> has m k then m @ [(k, new_room k)] else m)
         in increment m1 k)
      else m)"

definition scan :: "NostrEvent list \<Rightarrow> roomMap" where
  "scan events = foldl visit [] events"

text \<open>
  \<^verbatim>\<open>Array.prototype.sort\<close> with a comparator: a stable sort (ECMAScript 2019), written
  as insertion from the right so that equal elements keep their order. The comparator
  returns a negative number, zero or a positive number.
\<close>

fun insert_by :: "('a \<Rightarrow> 'a \<Rightarrow> int) \<Rightarrow> 'a \<Rightarrow> 'a list \<Rightarrow> 'a list" where
  "insert_by cmp x [] = [x]"
| "insert_by cmp x (y # ys) =
     (if cmp x y \<le> 0 then x # y # ys else y # insert_by cmp x ys)"

definition sort_by :: "('a \<Rightarrow> 'a \<Rightarrow> int) \<Rightarrow> 'a list \<Rightarrow> 'a list" where
  "sort_by cmp xs = foldr (insert_by cmp) xs []"

definition by_count :: "Chatroom \<Rightarrow> Chatroom \<Rightarrow> int" where
  "by_count a b = int (messageCount b) - int (messageCount a)"

text \<open>
  \<^verbatim>\<open>chatrooms\<close> of \<^verbatim>\<open>App.tsx\<close>; \<open>None\<close> is the \<^verbatim>\<open>undefined\<close> that \<^verbatim>\<open>events\<close> holds
  before the observable has emitted.
\<close>

definition chatrooms :: "NostrEvent list option \<Rightarrow> Chatroom list" where
  "chatrooms events =
     (case events of
        None \<Rightarrow> []
      | Some evs \<Rightarrow> sort_by by_count (map snd (scan evs)))"

section \<open>Filter view\<close>

text \<open>
  \<^verbatim>\<open>filteredEvents\<close> of \<^verbatim>\<open>App.tsx\<close>: the guard \<^verbatim>\<open>!events || !selectedChatroom\<close> returns
  \<^verbatim>\<open>events\<close> itself; otherwise the events whose \<^verbatim>\<open>g\<close> value is strictly equal to the
  selection are kept.
\<close>

definition filteredEvents ::
  "NostrEvent list option \<Rightarrow> string option \<Rightarrow> NostrEvent list option" where
  "filteredEvents events selectedChatroom =
     (case events of
        None \<Rightarrow> None
      | Some evs \<Rightarrow>
          if \<not> truthy selectedChatroom then Some evs
          else Some (filter (\<lambda>event. getTagValue event ''g'' = selectedChatroom) evs))"


section \<open>Geohash decoding\<close>

text \<open>
  \<^verbatim>\<open>decodeGeohash\<close> of \<^verbatim>\<open>components/LeafletMap.tsx\<close> computes with JavaScript numbers,
  which are IEEE 754 binary64 values. Every finite binary64 value is an integer multiple
  of \<open>2\<^sup>-\<^sup>1\<^sup>0\<^sup>7\<^sup>4\<close>, and a \<open>double\<close> here is that integer: \<open>number n\<close> is the
  integer \<open>n\<close> as a double, \<open>0\<close> is zero (the sign of zero is not represented), and
  an order or an equation between doubles is the one between the numbers they stand for.
  An arithmetic operation returns the exact result rounded to the nearest representable
  value, ties to the even significand: \<open>rne s n\<close> rounds \<open>n\<close> to a multiple of
  \<open>2\<^sup>s\<close>, and \<open>round_double\<close> keeps the 53 leading bits of its argument. All values
  of the decoder stay below 256 in magnitude, far from overflow, which is not modelled.
  The characters of a geohash are those of \<open>string\<close>; a character that \<open>string\<close>
  cannot hold is outside the alphabet in any case.
\<close>

type_synonym double = int

definition number :: "int \<Rightarrow> double" where
  "number n = n * 2 ^ 1074"

definition rne :: "nat \<Rightarrow> int \<Rightarrow> int" where
  "rne s n =
     (let a = \<bar>n\<bar>; q = a div 2 ^ s; r = a mod 2 ^ s
      in sgn n * (2 ^ s * (if 2 * r < 2 ^ s \<or> (2 * r = 2 ^ s \<and> even q) then q else q + 1)))"

definition round_double :: "int \<Rightarrow> double" where
  "round_double n = rne (nat (bitlen \<bar>n\<bar> - 53)) n"

text \<open>\<^verbatim>\<open>a + b\<close> and \<^verbatim>\<open>a - b\<close>: the exact sum or difference, rounded.\<close>

definition add_double :: "double \<Rightarrow> double \<Rightarrow> double" where
  "add_double a b = round_double (a + b)"

definition sub_double :: "double \<Rightarrow> double \<Rightarrow> double" where
  "sub_double a b = round_double (a - b)"

text \<open>
  \<^verbatim>\<open>a / 2\<close>: the exact half is \<open>a\<close> in units of \<open>2\<^sup>-\<^sup>1\<^sup>0\<^sup>7\<^sup>5\<close>; it is rounded to 53
  bits and to a multiple of the smallest unit \<open>2\<^sup>-\<^sup>1\<^sup>0\<^sup>7\<^sup>4\<close> (gradual underflow).
\<close>

definition half_double :: "double \<Rightarrow> double" where
  "half_double a = rne (max 1 (nat (bitlen \<bar>a\<bar> - 53))) a div 2"

record coords =
  lat :: double
  lng :: double

text \<open>The local variables of \<^verbatim>\<open>decodeGeohash\<close>.\<close>

record decoder =
  d_lat :: double
  d_lng :: double
  latErr :: double
  lngErr :: double
  isEven :: bool

definition base32 :: string where
  "base32 = ''0123456789bcdefghjkmnpqrstuvwxyz''"

text \<open>\<^verbatim>\<open>String.prototype.indexOf\<close> for one character; \<open>None\<close> is its \<^verbatim>\<open>-1\<close>.\<close>

fun indexOf :: "string \<Rightarrow> char \<Rightarrow> nat option" where
  "indexOf [] c = None"
| "indexOf (x # xs) c = (if x = c then Some 0 else map_option Suc (indexOf xs c))"

text \<open>
  The body of the inner loop; \<^verbatim>\<open>cd & mask\<close> with \<^verbatim>\<open>mask = 1 << j\<close> is truthy exactly
  when bit \<open>j\<close> of \<open>cd\<close> is set.
\<close>

definition bit_step :: "nat \<Rightarrow> decoder \<Rightarrow> nat \<Rightarrow> decoder" where
  "bit_step cd st j =
     (if isEven st then
        (let e = half_double (lngErr st)
         in st\<lparr>lngErr := e,
               d_lng := (if bit cd j then add_double (d_lng st) e else sub_double (d_lng st) e),
               isEven := False\<rparr>)
      else
        (let e = half_double (latErr st)
         in st\<lparr>latErr := e,
               d_lat := (if bit cd j then add_double (d_lat st) e else sub_double (d_lat st) e),
               isEven := True\<rparr>))"

text \<open>
  The outer loop over the characters, with the inner loop \<^verbatim>\<open>for (let j = 4; j >= 0; j--)\<close>
  as a fold; \<open>None\<close> is the \<^verbatim>\<open>null\<close> returned at a character outside the alphabet.
\<close>

fun chars :: "decoder \<Rightarrow> string \<Rightarrow> coords option" where
  "chars st [] = Some \<lparr>lat = d_lat st, lng = d_lng st\<rparr>"
| "chars st (c # cs) =
     (case indexOf base32 c of
        None \<Rightarrow> None
      | Some cd \<Rightarrow> chars (foldl (bit_step cd) st [4, 3, 2, 1, 0]) cs)"

definition decodeGeohash :: "string \<Rightarrow> coords option" where
  "decodeGeohash g =
     chars \<lparr>d_lat = 0, d_lng = 0, latErr = number 90, lngErr = number 180, isEven = True\<rparr> g"

section \<open>Map points\<close>

text \<open>
  \<^verbatim>\<open>mapPoints\<close> of \<^verbatim>\<open>LeafletMap.tsx\<close>: each room is mapped to \<^verbatim>\<open>{...room, lat, lng}\<close>, or
  to \<^verbatim>\<open>null\<close> when its geohash does not decode, and the \<^verbatim>\<open>null\<close>s are filtered out. The
  two added fields are primed because \<open>lat\<close> and \<open>lng\<close> are the fields of \<open>coords\<close>.
\<close>

record MapPoint = Chatroom +
  lat' :: double
  lng' :: double

definition to_point :: "Chatroom \<Rightarrow> MapPoint option" where
  "to_point room =
     (case decodeGeohash (geohash room) of
        None \<Rightarrow> None
      | Some c \<Rightarrow>
          Some \<lparr>geohash = geohash room, name = name room, messageCount = messageCount room,
                lat' = lat c, lng' = lng c\<rparr>)"

definition mapPoints :: "Chatroom list \<Rightarrow> MapPoint list" where
  "mapPoints rooms = map the (filter (\<lambda>point. point \<noteq> None) (map to_point rooms))"

section \<open>Event store and timeline\<close>

text \<open>
  In \<^verbatim>\<open>App.tsx\<close> the Event Store and the Timeline Aggregator are
  \<^verbatim>\<open>mapEventsToStore(eventStore)\<close> and \<^verbatim>\<open>mapEventsToTimeline()\<close> of the applesauce
  library, whose code is not among the sources: only the calls are. The definitions of
  this section follow the words of the specification instead. The store is the list of
  the admitted records. The \<open>timeline\<close> of this section is the specification's
  sequence of admitted events; the sequence that \<^verbatim>\<open>App.tsx\<close> publishes is \<open>events\<close>,
  defined further down.
\<close>

text \<open>
  Modelled from the spec: the store's \<^verbatim>\<open>contains(id)\<close> (library code, missing),
  "membership test".
\<close>

definition contains :: "NostrEvent list \<Rightarrow> string \<Rightarrow> bool" where
  "contains s i = (find (\<lambda>x. id_ev x = i) s \<noteq> None)"

text \<open>
  Modelled from the spec: the store's \<^verbatim>\<open>get(id)\<close> (library code, missing),
  "\<^verbatim>\<open>get(id) -> Event | not-found\<close>".
\<close>

definition get :: "NostrEvent list \<Rightarrow> string \<Rightarrow> NostrEvent option" where
  "get s i = find (\<lambda>x. id_ev x = i) s"

text \<open>
  Modelled from the spec: the store's \<^verbatim>\<open>admit(event)\<close> (library code, missing). It
  "admits a record only if no record with the same id is already present; on a duplicate
  submission the store is unchanged and the call reports non-admission".
\<close>

definition admit :: "NostrEvent \<Rightarrow> NostrEvent list \<Rightarrow> bool \<times> NostrEvent list" where
  "admit e s = (if contains s (id_ev e) then (False, s) else (True, s @ [e]))"

record pipeline =
  store :: "NostrEvent list"
  timeline :: "NostrEvent list"

text \<open>
  Modelled from the spec: the Timeline Aggregator (library code, missing). "On each
  Event Store admission, the aggregator appends the new event to its ordered sequence";
  a record that is not admitted changes nothing.
\<close>

definition submit :: "pipeline \<Rightarrow> NostrEvent \<Rightarrow> pipeline" where
  "submit p e =
     (case admit e (store p) of
        (admitted, s) \<Rightarrow>
          \<lparr>store = s, timeline = (if admitted then timeline p @ [e] else timeline p)\<rparr>)"

text \<open>
  Modelled from the spec: the stream of incoming records, submitted one after the other
  to a store and a timeline that are empty at the start.
\<close>

definition run :: "NostrEvent list \<Rightarrow> pipeline" where
  "run es = foldl submit \<lparr>store = [], timeline = []\<rparr> es"

section \<open>The reversed view\<close>

text \<open>
  \<^verbatim>\<open>map((t) => [...t].reverse())\<close> of \<^verbatim>\<open>App.tsx\<close>, on a heap of arrays so that the
  aliasing is visible: a reference is an index into the heap, the spread \<^verbatim>\<open>[...t]\<close>
  allocates a new array with the elements of \<open>t\<close>, and \<^verbatim>\<open>Array.prototype.reverse\<close>
  reverses the array it is called on in place and returns the same reference.
\<close>

type_synonym 'a heap = "'a list list"

definition spread :: "'a heap \<Rightarrow> nat \<Rightarrow> 'a heap \<times> nat" where
  "spread h t = (h @ [h ! t], length h)"

definition reverse :: "'a heap \<Rightarrow> nat \<Rightarrow> 'a heap \<times> nat" where
  "reverse h a = (h[a := rev (h ! a)], a)"

definition reversed_view :: "'a heap \<Rightarrow> nat \<Rightarrow> 'a heap \<times> nat" where
  "reversed_view h t = (case spread h t of (h1, c) \<Rightarrow> reverse h1 c)"

section \<open>The published timeline\<close>

text \<open>
  The code of the library's \<^verbatim>\<open>mapEventsToTimeline()\<close> is not among the sources.
  Modelled from the comments of the source: \<^verbatim>\<open>App.tsx\<close> says of the step after it
  "Reverse the order so newest messages are at the bottom", and the README says of the
  timeline "Provides sorted, reactive timeline of events". The timeline is sorted by
  \<^verbatim>\<open>created_at\<close>, the newest event first: each admitted event is inserted before the
  first event that is not newer than it. For two events of the same \<^verbatim>\<open>created_at\<close>
  the sources do not say which comes first; here it is the later arrival, and no theorem
  depends on that.
\<close>

fun insert_newest_first :: "NostrEvent \<Rightarrow> NostrEvent list \<Rightarrow> NostrEvent list" where
  "insert_newest_first e [] = [e]"
| "insert_newest_first e (x # xs) =
     (if created_at x \<le> created_at e then e # x # xs else x # insert_newest_first e xs)"

definition mapEventsToTimeline :: "NostrEvent list \<Rightarrow> NostrEvent list" where
  "mapEventsToTimeline admitted = foldl (\<lambda>t e. insert_newest_first e t) [] admitted"

text \<open>
  The value of \<^verbatim>\<open>events\<close> in \<^verbatim>\<open>App.tsx\<close> (lines 57 to 72) when the store has admitted
  the given records in the given order: the timeline of these records, to which
  \<^verbatim>\<open>map((t) => [...t].reverse())\<close> is applied. This is the sequence that the chatroom
  scan and the filter read.
\<close>

definition events :: "NostrEvent list \<Rightarrow> NostrEvent list" where
  "events admitted =
     (case reversed_view [mapEventsToTimeline admitted] 0 of (h, r) \<Rightarrow> h ! r)"

section \<open>Auxiliary notions\<close>

text \<open>
  The \<^verbatim>\<open>g\<close> values that the chatroom scan counts, in the order of the events; the
  distinct values of a list in the order of their first occurrence; and the room of a
  geocell with a given count.
\<close>

definition geocells :: "NostrEvent list \<Rightarrow> string list" where
  "geocells evs =
     map (\<lambda>e. the (getTagValue e ''g'')) (filter (\<lambda>e. truthy (getTagValue e ''g'')) evs)"

definition first_seen :: "string list \<Rightarrow> string list" where
  "first_seen gs = rev (remdups (rev gs))"

definition room_of :: "(string \<Rightarrow> nat) \<Rightarrow> string \<Rightarrow> Chatroom" where
  "room_of c k = \<lparr>geohash = k, name = CHR ''#'' # k, messageCount = c k\<rparr>"

text \<open>An event with the given id, timestamp and tags, for the examples.\<close>

definition ev :: "string \<Rightarrow> int \<Rightarrow> string list list \<Rightarrow> NostrEvent" where
  "ev i t ts = \<lparr>id_ev = i, pubkey = ''npub'', created_at = t, content = ''hello'', tags = ts\<rparr>"

text \<open>
  Multiplying every number of a decoder state by a power of two, and the divisibility
  of both error widths by a power of two: the decoder commutes with the scaling as long
  as the widths stay even, which lets a run on small integers stand for the run on the
  binary64 scale.
\<close>

definition scale :: "nat \<Rightarrow> decoder \<Rightarrow> decoder" where
  "scale j st =
     \<lparr>d_lat = d_lat st * 2 ^ j, d_lng = d_lng st * 2 ^ j,
      latErr = latErr st * 2 ^ j, lngErr = lngErr st * 2 ^ j, isEven = isEven st\<rparr>"

definition scale_coords :: "nat \<Rightarrow> coords \<Rightarrow> coords" where
  "scale_coords j p = \<lparr>lat = lat p * 2 ^ j, lng = lng p * 2 ^ j\<rparr>"

definition errs_dvd :: "nat \<Rightarrow> decoder \<Rightarrow> bool" where
  "errs_dvd m st = (2 ^ m dvd latErr st \<and> 2 ^ m dvd lngErr st)"

definition small :: "nat \<Rightarrow> decoder" where
  "small p = \<lparr>d_lat = 0, d_lng = 0, latErr = 90 * 2 ^ p, lngErr = 180 * 2 ^ p, isEven = True\<rparr>"

text \<open>
  For the bounds of the decoder, per axis (\<open>c = 0\<close> the latitude, \<open>c = 1\<close> the
  longitude): the bound \<open>limit\<close> (90 or 180), the error width after \<open>k\<close> halvings,
  the spacing \<open>ulp\<close> of the doubles just below the bound, and the distance from the
  bound, in such spacings, that the running value keeps after \<open>k\<close> steps.
\<close>

definition limit :: "nat \<Rightarrow> int" where
  "limit c = number 90 * 2 ^ c"

definition err_at :: "nat \<Rightarrow> nat \<Rightarrow> int" where
  "err_at c k = (half_double ^^ k) (limit c)"

definition ulp :: "nat \<Rightarrow> int" where
  "ulp c = 2 ^ (1028 + c)"

definition slack :: "nat \<Rightarrow> int" where
  "slack k = (if k \<le> 47 then 45 * 2 ^ (47 - k) else 45 div 2 ^ (k - 47))"

definition axis_inv :: "nat \<Rightarrow> nat \<Rightarrow> int \<Rightarrow> bool" where
  "axis_inv c k v = (\<bar>v\<bar> \<le> limit c - ulp c * slack k \<and> (k \<le> 47 \<longrightarrow> ulp c dvd v))"

definition decoder_inv :: "nat \<Rightarrow> decoder \<Rightarrow> bool" where
  "decoder_inv n st =
     (isEven st = even n
      \<and> latErr st = err_at 0 (n div 2) \<and> lngErr st = err_at 1 (Suc n div 2)
      \<and> axis_inv 0 (n div 2) (d_lat st) \<and> axis_inv 1 (Suc n div 2) (d_lng st))"

section \<open>The chatroom scan, characterised\<close>

lemma truthy_the: "truthy x \<Longrightarrow> the x \<noteq> [] \<and> x = Some (the x)"
  by (cases x) simp_all

lemma first_seen_snoc:
  "first_seen (gs @ [k]) = (if k \<in> set gs then first_seen gs else first_seen gs @ [k])"
  by (simp add: first_seen_def)

lemma set_first_seen [simp]: "set (first_seen gs) = set gs"
  by (simp add: first_seen_def)

lemma distinct_first_seen [simp]: "distinct (first_seen gs)"
  by (simp add: first_seen_def)

lemma has_map: "has (map (\<lambda>k. (k, f k)) ks) g = (g \<in> set ks)"
  by (induction ks) (auto simp: has_def)

lemma increment_map:
  "distinct ks \<Longrightarrow>
   increment (map (\<lambda>k. (k, room_of c k)) ks) g =
   map (\<lambda>k. (k, room_of (c(g := c g + 1)) k)) ks"
  by (induction ks) (auto simp: room_of_def)

lemma geocells_snoc:
  "geocells (evs @ [e]) =
   (if truthy (getTagValue e ''g'') then geocells evs @ [the (getTagValue e ''g'')]
    else geocells evs)"
  by (simp add: geocells_def)

lemma scan_snoc: "scan (evs @ [e]) = visit (scan evs) e"
  by (simp add: scan_def)

lemma new_room_eq: "count_list gs k = 0 \<Longrightarrow> new_room k = room_of (count_list gs) k"
  by (simp add: new_room_def room_of_def)

text \<open>
  After the scan the map holds, in the order of first occurrence, one room for each
  counted \<^verbatim>\<open>g\<close> value, with the number of its occurrences.
\<close>

lemma scan_eq:
  "scan evs =
   map (\<lambda>k. (k, room_of (count_list (geocells evs)) k)) (first_seen (geocells evs))"
proof (induction evs rule: rev_induct)
  case Nil
  show ?case by (simp add: scan_def geocells_def first_seen_def)
next
  case (snoc e evs)
  let ?gs = "geocells evs"
  let ?k = "the (getTagValue e ''g'')"
  show ?case
  proof (cases "truthy (getTagValue e ''g'')")
    case False
    then show ?thesis using snoc by (simp add: scan_snoc visit_def geocells_snoc)
  next
    case counted: True
    then have g: "geocells (evs @ [e]) = ?gs @ [?k]" by (simp add: geocells_snoc)
    show ?thesis
    proof (cases "?k \<in> set ?gs")
      case True
      have "visit (scan evs) e = increment (scan evs) ?k"
        using True counted snoc by (simp add: visit_def has_map Let_def)
      also have "\<dots> =
          map (\<lambda>k. (k, room_of ((count_list ?gs)(?k := count_list ?gs ?k + 1)) k))
            (first_seen ?gs)"
        by (simp add: snoc increment_map)
      finally show ?thesis using True
        by (simp add: scan_snoc g first_seen_snoc room_of_def)
    next
      case False
      then have z: "count_list ?gs ?k = 0" by simp
      have d: "distinct (first_seen ?gs @ [?k])" using False by simp
      have "visit (scan evs) e = increment (scan evs @ [(?k, new_room ?k)]) ?k"
        using False counted snoc by (simp add: visit_def has_map Let_def)
      also have "scan evs @ [(?k, new_room ?k)] =
          map (\<lambda>k. (k, room_of (count_list ?gs) k)) (first_seen ?gs @ [?k])"
        by (simp add: snoc new_room_eq [OF z])
      also have "increment \<dots> ?k =
          map (\<lambda>k. (k, room_of ((count_list ?gs)(?k := count_list ?gs ?k + 1)) k))
            (first_seen ?gs @ [?k])"
        using d by (rule increment_map)
      finally show ?thesis using False
        by (simp add: scan_snoc g first_seen_snoc room_of_def)
    qed
  qed
qed

lemma insert_by_count:
  "insert_by by_count x ys = insort_key (\<lambda>r. - int (messageCount r)) x ys"
  by (induction ys) (auto simp: by_count_def)

lemma sort_by_count: "sort_by by_count xs = sort_key (\<lambda>r. - int (messageCount r)) xs"
  by (induction xs) (simp_all add: sort_by_def insert_by_count)

lemma count_geocells:
  "k \<noteq> [] \<Longrightarrow>
   count_list (geocells evs) k = length (filter (\<lambda>e. getTagValue e ''g'' = Some k) evs)"
proof (induction evs)
  case Nil
  show ?case by (simp add: geocells_def)
next
  case (Cons e evs)
  then show ?case
    by (cases "getTagValue e ''g''") (auto simp: geocells_def)
qed

lemma chatrooms_eq:
  "chatrooms (Some evs) =
   sort_key (\<lambda>r. - int (messageCount r))
     (map (room_of (count_list (geocells evs))) (first_seen (geocells evs)))"
  by (simp add: chatrooms_def sort_by_count scan_eq comp_def)

lemma geocells_nonempty: "k \<in> set (geocells evs) \<Longrightarrow> k \<noteq> []"
  by (auto simp: geocells_def dest: truthy_the)

lemma geocells_member:
  "e \<in> set evs \<Longrightarrow> getTagValue e ''g'' = Some g \<Longrightarrow> g \<noteq> [] \<Longrightarrow> g \<in> set (geocells evs)"
  by (force simp: geocells_def)

lemma room_in_chatrooms:
  "r \<in> set (chatrooms (Some evs)) \<longleftrightarrow>
   (\<exists>k \<in> set (geocells evs). r = room_of (count_list (geocells evs)) k)"
  by (auto simp: chatrooms_eq)

section \<open>Chatroom counts\<close>

text \<open>
  C3. Every chatroom of the output has as \<open>messageCount\<close> the number of events of the
  scanned sequence whose first \<^verbatim>\<open>g\<close> tag value is the chatroom's geohash, its name is
  \<^verbatim>\<open>#\<close> followed by the geohash, and its count is not zero. The output is a function of
  the sequence, hence the same for the same contents.
\<close>

theorem chatrooms_counts:
  assumes "r \<in> set (chatrooms (Some evs))"
  shows "messageCount r = length (filter (\<lambda>e. getTagValue e ''g'' = Some (geohash r)) evs)
       \<and> name r = CHR ''#'' # geohash r
       \<and> 0 < messageCount r"
proof -
  from assms obtain k where k: "k \<in> set (geocells evs)"
    and r: "r = room_of (count_list (geocells evs)) k"
    by (auto simp: room_in_chatrooms)
  have ne: "k \<noteq> []" using k by (rule geocells_nonempty)
  have "count_list (geocells evs) k \<noteq> 0" using k by (simp add: count_list_0_iff)
  then have pos: "0 < count_list (geocells evs) k" by simp
  show ?thesis using r pos count_geocells [OF ne, of evs] by (simp add: room_of_def)
qed

lemma scenario_a:
  "chatrooms (Some [ev ''a'' 3 [[''g'', ''u4'']], ev ''b'' 1 [[''g'', ''u4'']],
                    ev ''c'' 2 [[''g'', ''u5'']]]) =
   [\<lparr>geohash = ''u4'', name = ''#u4'', messageCount = 2\<rparr>,
    \<lparr>geohash = ''u5'', name = ''#u5'', messageCount = 1\<rparr>]"
  by code_simp

theorem chatrooms_counts_witness:
  "\<lparr>geohash = ''u4'', name = ''#u4'', messageCount = 2\<rparr>
     \<in> set (chatrooms (Some [ev ''a'' 3 [[''g'', ''u4'']], ev ''b'' 1 [[''g'', ''u4'']],
                              ev ''c'' 2 [[''g'', ''u5'']]]))
   \<and> (2::nat) = length (filter (\<lambda>e. getTagValue e ''g'' = Some ''u4'')
        [ev ''a'' 3 [[''g'', ''u4'']], ev ''b'' 1 [[''g'', ''u4'']],
         ev ''c'' 2 [[''g'', ''u5'']]])"
proof -
  let ?evs = "[ev ''a'' 3 [[''g'', ''u4'']], ev ''b'' 1 [[''g'', ''u4'']],
               ev ''c'' 2 [[''g'', ''u5'']]]"
  let ?r = "\<lparr>geohash = ''u4'', name = ''#u4'', messageCount = 2\<rparr>"
  have h: "?r \<in> set (chatrooms (Some ?evs))" by (simp add: scenario_a)
  show ?thesis using h chatrooms_counts [OF h] by simp
qed

section \<open>Chatroom order\<close>

text \<open>
  C7. The chatroom list is in descending order of \<open>messageCount\<close>; the chatrooms of
  one count stand in the order in which the scan's map holds them, and the map holds
  the rooms in the order in which their geocells first occur in the scanned sequence.
\<close>

theorem chatrooms_order:
  "sorted_wrt (\<lambda>a b. messageCount b \<le> messageCount a) (chatrooms (Some evs))
   \<and> filter (\<lambda>r. messageCount r = n) (chatrooms (Some evs)) =
     filter (\<lambda>r. messageCount r = n) (map snd (scan evs))
   \<and> map geohash (map snd (scan evs)) = first_seen (geocells evs)"
proof -
  let ?f = "\<lambda>r. - int (messageCount r)"
  let ?xs = "map snd (scan evs)"
  have c: "chatrooms (Some evs) = sort_key ?f ?xs"
    by (simp add: chatrooms_def sort_by_count)
  have "sorted (map ?f (sort_key ?f ?xs))" by (rule sorted_sort_key)
  then have s: "sorted_wrt (\<lambda>a b. messageCount b \<le> messageCount a) (sort_key ?f ?xs)"
    by (simp add: sorted_map)
  have "filter (\<lambda>r. ?f r = - int n) (sort_key ?f ?xs) = filter (\<lambda>r. ?f r = - int n) ?xs"
    by (rule sort_key_stable)
  then have t: "filter (\<lambda>r. messageCount r = n) (sort_key ?f ?xs) =
                filter (\<lambda>r. messageCount r = n) ?xs"
    by simp
  have o: "map geohash (map snd (scan evs)) = first_seen (geocells evs)"
    by (simp add: scan_eq comp_def room_of_def)
  show ?thesis using s t o by (simp add: c)
qed

theorem chatrooms_order_witness:
  "chatrooms (Some [ev ''a'' 3 [[''g'', ''u5'']], ev ''b'' 1 [[''g'', ''u4'']],
                    ev ''c'' 2 [[''g'', ''u6'']], ev ''d'' 2 [[''g'', ''u4'']]]) =
     [\<lparr>geohash = ''u4'', name = ''#u4'', messageCount = 2\<rparr>,
      \<lparr>geohash = ''u5'', name = ''#u5'', messageCount = 1\<rparr>,
      \<lparr>geohash = ''u6'', name = ''#u6'', messageCount = 1\<rparr>]
   \<and> filter (\<lambda>r. messageCount r = 1)
       (chatrooms (Some [ev ''a'' 3 [[''g'', ''u5'']], ev ''b'' 1 [[''g'', ''u4'']],
                         ev ''c'' 2 [[''g'', ''u6'']], ev ''d'' 2 [[''g'', ''u4'']]])) =
     filter (\<lambda>r. messageCount r = 1)
       (map snd (scan [ev ''a'' 3 [[''g'', ''u5'']], ev ''b'' 1 [[''g'', ''u4'']],
                       ev ''c'' 2 [[''g'', ''u6'']], ev ''d'' 2 [[''g'', ''u4'']]]))"
proof -
  let ?evs = "[ev ''a'' 3 [[''g'', ''u5'']], ev ''b'' 1 [[''g'', ''u4'']],
               ev ''c'' 2 [[''g'', ''u6'']], ev ''d'' 2 [[''g'', ''u4'']]]"
  have v: "chatrooms (Some ?evs) =
     [\<lparr>geohash = ''u4'', name = ''#u4'', messageCount = 2\<rparr>,
      \<lparr>geohash = ''u5'', name = ''#u5'', messageCount = 1\<rparr>,
      \<lparr>geohash = ''u6'', name = ''#u6'', messageCount = 1\<rparr>]"
    by code_simp
  show ?thesis using v chatrooms_order [of ?evs 1] by simp
qed

section \<open>The filter view\<close>

text \<open>
  C4, as stated, fails for the selection that is the empty string: the guard
  \<^verbatim>\<open>!selectedChatroom\<close> treats it as no selection, and the whole sequence is returned,
  here an event whose \<^verbatim>\<open>g\<close> value is not the selection.
\<close>

theorem filter_selection_counterexample:
  "filteredEvents (Some [ev ''a'' 1 [[''g'', ''u4'']]]) (Some '''') =
     Some [ev ''a'' 1 [[''g'', ''u4'']]]
   \<and> getTagValue (ev ''a'' 1 [[''g'', ''u4'']]) ''g'' \<noteq> Some ''''"
  by (simp add: filteredEvents_def getTagValue_def ev_def)

text \<open>
  C4, amended. With no selection, or with the empty string as the selection, the filter
  returns its input unchanged; with a non-empty selection it returns exactly the events
  whose first \<^verbatim>\<open>g\<close> tag value is the selection, in the order of the input. Before the
  first emission there is no sequence and none is returned.
\<close>

theorem filter_selection:
  "filteredEvents None sel = None
   \<and> filteredEvents (Some evs) None = Some evs
   \<and> filteredEvents (Some evs) (Some []) = Some evs
   \<and> (s \<noteq> [] \<longrightarrow>
        filteredEvents (Some evs) (Some s) =
          Some (filter (\<lambda>event. getTagValue event ''g'' = Some s) evs))"
  by (simp add: filteredEvents_def)

theorem filter_selection_witness:
  "''u4'' \<noteq> []
   \<and> filteredEvents (Some [ev ''a'' 1 [[''g'', ''u4'']], ev ''b'' 2 [[''g'', ''u5'']],
                           ev ''c'' 3 [[''g'', ''u4'']]]) (Some ''u4'') =
     Some [ev ''a'' 1 [[''g'', ''u4'']], ev ''c'' 3 [[''g'', ''u4'']]]"
  using filter_selection [of None "[ev ''a'' 1 [[''g'', ''u4'']], ev ''b'' 2 [[''g'', ''u5'']],
                           ev ''c'' 3 [[''g'', ''u4'']]]" "''u4''"]
  by (simp add: getTagValue_def ev_def)

section \<open>The empty geocell\<close>

text \<open>
  C10. An event whose first \<^verbatim>\<open>g\<close> tag value is the empty string changes nothing in the
  chatroom list, no chatroom has the empty geohash, and the empty string as the
  selection returns the whole sequence, as no selection does.
\<close>

theorem empty_geocell_absent:
  "(getTagValue e ''g'' = Some [] \<longrightarrow>
      chatrooms (Some (xs @ e # ys)) = chatrooms (Some (xs @ ys)))
   \<and> (\<forall>r \<in> set (chatrooms (Some evs)). geohash r \<noteq> [])
   \<and> filteredEvents (Some evs) (Some []) = Some evs
   \<and> filteredEvents (Some evs) (Some []) = filteredEvents (Some evs) None"
proof -
  have a: "chatrooms (Some (xs @ e # ys)) = chatrooms (Some (xs @ ys))"
    if "getTagValue e ''g'' = Some []"
  proof -
    have "geocells (xs @ e # ys) = geocells (xs @ ys)"
      using that by (simp add: geocells_def)
    then show ?thesis by (simp add: chatrooms_eq)
  qed
  have b: "geohash r \<noteq> []" if "r \<in> set (chatrooms (Some evs))" for r
    using that geocells_nonempty by (auto simp: room_in_chatrooms room_of_def)
  show ?thesis using a b by (simp add: filteredEvents_def)
qed

theorem empty_geocell_absent_witness:
  "getTagValue (ev ''b'' 2 [[''g'', []]]) ''g'' = Some []
   \<and> chatrooms (Some [ev ''a'' 1 [[''g'', ''u4'']], ev ''b'' 2 [[''g'', []]]]) =
     chatrooms (Some [ev ''a'' 1 [[''g'', ''u4'']]])
   \<and> chatrooms (Some [ev ''a'' 1 [[''g'', ''u4'']], ev ''b'' 2 [[''g'', []]]]) =
     [\<lparr>geohash = ''u4'', name = ''#u4'', messageCount = 1\<rparr>]"
proof -
  let ?a = "ev ''a'' 1 [[''g'', ''u4'']]"
  let ?b = "ev ''b'' 2 [[''g'', []]]"
  have g: "getTagValue ?b ''g'' = Some []"
    by (simp add: getTagValue_def ev_def)
  have v: "chatrooms (Some [?a, ?b]) = [\<lparr>geohash = ''u4'', name = ''#u4'', messageCount = 1\<rparr>]"
    by code_simp
  have "chatrooms (Some ([?a] @ ?b # [])) = chatrooms (Some ([?a] @ []))"
    using g empty_geocell_absent [of ?b "[?a]" "[]" "[]"] by blast
  then show ?thesis using g v by simp
qed

section \<open>Admission\<close>

lemma contains_iff: "contains s i \<longleftrightarrow> i \<in> id_ev ` set s"
  by (auto simp: contains_def find_None_iff)

lemma run_snoc: "run (es @ [e]) = submit (run es) e"
  by (simp add: run_def)

lemma submit_new:
  "id_ev e \<notin> id_ev ` set (store p) \<Longrightarrow>
   submit p e = \<lparr>store = store p @ [e], timeline = timeline p @ [e]\<rparr>"
  by (simp add: submit_def admit_def contains_iff)

lemma submit_known: "id_ev e \<in> id_ev ` set (store p) \<Longrightarrow> submit p e = p"
  by (simp add: submit_def admit_def contains_iff)

text \<open>
  In every state that the pipeline reaches, the timeline holds the stored events, the
  stored ids are distinct, and they are the ids submitted so far.
\<close>

lemma run_invariant:
  "timeline (run es) = store (run es)
   \<and> distinct (map id_ev (store (run es)))
   \<and> id_ev ` set (store (run es)) = id_ev ` set es"
proof (induction es rule: rev_induct)
  case Nil
  show ?case by (simp add: run_def)
next
  case (snoc e es)
  show ?case
  proof (cases "id_ev e \<in> id_ev ` set (store (run es))")
    case True
    then show ?thesis using snoc by (auto simp: run_snoc submit_known)
  next
    case False
    then show ?thesis using snoc by (auto simp: run_snoc submit_new)
  qed
qed

lemma count_id_one:
  "distinct (map id_ev s) \<Longrightarrow> i \<in> id_ev ` set s \<Longrightarrow>
   length (filter (\<lambda>x. id_ev x = i) s) = 1"
proof (induction s)
  case Nil
  then show ?case by simp
next
  case (Cons x s)
  show ?case
  proof (cases "id_ev x = i")
    case True
    then have "i \<notin> id_ev ` set s" using Cons.prems(1) by auto
    then have "filter (\<lambda>x. id_ev x = i) s = []" by (auto simp: filter_empty_conv)
    then show ?thesis using True by simp
  next
    case False
    then show ?thesis using Cons by auto
  qed
qed

text \<open>
  C2. In any state the pipeline reaches, after a record has been submitted a second
  submission of a record with that id is reported as not admitted and leaves the store
  and the timeline as they are; the store and the timeline each hold exactly one record
  with that id.
\<close>

theorem duplicate_submission:
  "admit e (store (submit (run es) e)) = (False, store (submit (run es) e))
   \<and> submit (submit (run es) e) e = submit (run es) e
   \<and> length (filter (\<lambda>x. id_ev x = id_ev e) (store (submit (submit (run es) e) e))) = 1
   \<and> length (filter (\<lambda>x. id_ev x = id_ev e) (timeline (submit (submit (run es) e) e))) = 1"
proof -
  let ?p = "submit (run es) e"
  have p: "?p = run (es @ [e])" by (simp add: run_snoc)
  have i: "id_ev e \<in> id_ev ` set (store ?p)"
    using run_invariant [of "es @ [e]"] by (simp add: p)
  have d: "distinct (map id_ev (store ?p))" and t: "timeline ?p = store ?p"
    using run_invariant [of "es @ [e]"] by (simp_all add: p)
  have a: "admit e (store ?p) = (False, store ?p)"
    using i by (simp add: admit_def contains_iff)
  have s: "submit ?p e = ?p" using i by (rule submit_known)
  have c: "length (filter (\<lambda>x. id_ev x = id_ev e) (store ?p)) = 1"
    using d i by (rule count_id_one)
  show ?thesis using a s c t by simp
qed

theorem duplicate_submission_witness:
  "submit (submit (run []) (ev ''a'' 1 [])) (ev ''a'' 1 []) = submit (run []) (ev ''a'' 1 [])
   \<and> timeline (run [ev ''a'' 1 [], ev ''a'' 1 [], ev ''b'' 2 []]) =
     [ev ''a'' 1 [], ev ''b'' 2 []]"
proof -
  have "timeline (run [ev ''a'' 1 [], ev ''a'' 1 [], ev ''b'' 2 []]) =
        [ev ''a'' 1 [], ev ''b'' 2 []]"
    by (simp add: run_def submit_def admit_def contains_def ev_def)
  then show ?thesis using duplicate_submission [of "ev ''a'' 1 []" "[]"] by simp
qed

section \<open>The reversal is made on a copy\<close>

text \<open>
  C8. The reversed view is a new array that holds the elements of the sequence in
  reverse order; the array of the sequence itself, and every other array of the heap,
  is what it was before.
\<close>

theorem reversed_view_frame:
  assumes "t < length h"
  shows "fst (reversed_view h t) ! t = h ! t
       \<and> snd (reversed_view h t) \<noteq> t
       \<and> fst (reversed_view h t) ! snd (reversed_view h t) = rev (h ! t)
       \<and> (\<forall>a < length h. fst (reversed_view h t) ! a = h ! a)"
proof -
  have "reversed_view h t = (h @ [rev (h ! t)], length h)"
    by (simp add: reversed_view_def spread_def reverse_def)
  then show ?thesis using assms by (simp add: nth_append)
qed

theorem reversed_view_frame_witness:
  "(0::nat) < length [[1, 2, 3 :: nat]]
   \<and> reversed_view [[1, 2, 3 :: nat]] 0 = ([[1, 2, 3], [3, 2, 1]], 1)
   \<and> fst (reversed_view [[1, 2, 3 :: nat]] 0) ! 0 = [1, 2, 3]"
proof -
  have l: "(0::nat) < length [[1, 2, 3 :: nat]]" by simp
  have v: "reversed_view [[1, 2, 3 :: nat]] 0 = ([[1, 2, 3], [3, 2, 1]], 1)"
    by (simp add: reversed_view_def spread_def reverse_def)
  show ?thesis using l v reversed_view_frame [OF l] by simp
qed

section \<open>The order of the published timeline\<close>


lemma set_insert_newest_first [simp]: "set (insert_newest_first e t) = insert e (set t)"
  by (induction t) auto

lemma length_insert_newest_first [simp]: "length (insert_newest_first e t) = Suc (length t)"
  by (induction t) auto









section \<open>Rounding and scaling\<close>

lemma rne_0 [simp]: "rne s 0 = 0"
  by (simp add: rne_def)

lemma rne_minus: "rne s (- n) = - rne s n"
  by (simp add: rne_def Let_def sgn_minus)

lemma rne_dvd: "2 ^ s dvd rne s n"
  by (simp add: rne_def Let_def)

lemma rne_exact:
  assumes "2 ^ s dvd n"
  shows "rne s n = n"
proof -
  from assms have "(2::int) ^ s dvd \<bar>n\<bar>" by simp
  then have m: "\<bar>n\<bar> mod 2 ^ s = 0" and q: "2 ^ s * (\<bar>n\<bar> div 2 ^ s) = \<bar>n\<bar>"
    by (simp_all add: dvd_eq_mod_eq_0)
  show ?thesis
    by (simp add: rne_def Let_def m q sgn_mult_abs)
qed

lemma rne_scale: "rne (s + j) (n * 2 ^ j) = rne s n * 2 ^ j"
proof -
  have a: "\<bar>n * 2 ^ j\<bar> = \<bar>n\<bar> * 2 ^ j" by (simp add: abs_mult)
  have d: "(\<bar>n\<bar> * 2 ^ j) div 2 ^ (s + j) = \<bar>n\<bar> div 2 ^ s"
    by (simp add: power_add)
  have m: "(\<bar>n\<bar> * 2 ^ j) mod 2 ^ (s + j) = (\<bar>n\<bar> mod 2 ^ s) * 2 ^ j"
    by (simp add: power_add mult_mod_left mult.commute)
  have c1: "(2 * (\<bar>n\<bar> mod 2 ^ s * 2 ^ j) < (2::int) ^ (s + j)) = (2 * (\<bar>n\<bar> mod 2 ^ s) < 2 ^ s)"
    by (simp add: power_add)
  have c2: "(2 * (\<bar>n\<bar> mod 2 ^ s * 2 ^ j) = (2::int) ^ (s + j)) = (2 * (\<bar>n\<bar> mod 2 ^ s) = 2 ^ s)"
    by (simp add: power_add)
  have sg: "sgn (n * 2 ^ j) = sgn n" by (simp add: sgn_mult)
  show ?thesis
    unfolding rne_def Let_def a d m c1 c2 sg
    by (simp add: power_add algebra_simps)
qed

lemma bitlen_scale: "n \<noteq> 0 \<Longrightarrow> bitlen \<bar>n * 2 ^ j\<bar> = bitlen \<bar>n\<bar> + int j"
  using bitlen_pow2 [of "\<bar>n\<bar>" j] by (simp add: abs_mult)

lemma round_double_scale: "round_double (n * 2 ^ j) = round_double n * 2 ^ j"
proof (cases "n = 0")
  case True
  then show ?thesis by (simp add: round_double_def)
next
  case False
  note b = bitlen_scale [OF False, of j]
  show ?thesis
  proof (cases "53 \<le> bitlen \<bar>n\<bar>")
    case True
    then have "nat (bitlen \<bar>n\<bar> + int j - 53) = nat (bitlen \<bar>n\<bar> - 53) + j" by simp
    then show ?thesis by (simp add: round_double_def b rne_scale)
  next
    case False
    then have z: "nat (bitlen \<bar>n\<bar> - 53) = 0" by simp
    have "nat (bitlen \<bar>n\<bar> + int j - 53) \<le> j" using False by simp
    then have "(2::int) ^ nat (bitlen \<bar>n\<bar> + int j - 53) dvd 2 ^ j"
      by (simp add: le_imp_power_dvd)
    then have "2 ^ nat (bitlen \<bar>n\<bar> + int j - 53) dvd n * 2 ^ j" by simp
    then show ?thesis by (simp add: round_double_def b rne_exact z)
  qed
qed

lemma half_double_scale:
  assumes "even n"
  shows "half_double (n * 2 ^ j) = half_double n * 2 ^ j"
proof (cases "n = 0 \<or> j = 0")
  case True
  then show ?thesis by (auto simp: half_double_def)
next
  case False
  then have n0: "n \<noteq> 0" and j: "1 \<le> j" by simp_all
  note b = bitlen_scale [OF n0, of j]
  show ?thesis
  proof (cases "54 \<le> bitlen \<bar>n\<bar>")
    case True
    define s where "s = nat (bitlen \<bar>n\<bar> - 53)"
    have s1: "1 \<le> s" using True by (simp add: s_def)
    have e: "max 1 (nat (bitlen \<bar>n\<bar> + int j - 53)) = s + j"
      "max 1 (nat (bitlen \<bar>n\<bar> - 53)) = s"
      using True by (simp_all add: s_def)
    have "(2::int) dvd 2 ^ s" using s1 by (cases s) simp_all
    then have "even (rne s n)" using rne_dvd [of s n] by (rule dvd_trans)
    then obtain h where h: "rne s n = 2 * h" by (elim evenE)
    have "half_double (n * 2 ^ j) = rne (s + j) (n * 2 ^ j) div 2"
      by (simp only: half_double_def b e)
    also have "\<dots> = h * 2 ^ j" by (simp add: rne_scale h)
    also have "h = half_double n" by (simp only: half_double_def e) (simp add: h)
    finally show ?thesis .
  next
    case False
    from assms obtain h where h: "n = 2 * h" by (elim evenE)
    have "max 1 (nat (bitlen \<bar>n\<bar> + int j - 53)) \<le> j" using False j by simp
    then have "(2::int) ^ max 1 (nat (bitlen \<bar>n\<bar> + int j - 53)) dvd 2 ^ j"
      by (rule le_imp_power_dvd)
    then have d1: "2 ^ max 1 (nat (bitlen \<bar>n\<bar> + int j - 53)) dvd n * 2 ^ j" by simp
    have "max 1 (nat (bitlen \<bar>n\<bar> - 53)) = 1" using False by simp
    moreover have "(2::int) ^ 1 dvd n" using assms by simp
    ultimately have d2: "rne (max 1 (nat (bitlen \<bar>n\<bar> - 53))) n = n" by (simp add: rne_exact)
    show ?thesis
      unfolding half_double_def b rne_exact [OF d1] d2 by (simp add: h)
  qed
qed

lemma half_double_dvd:
  assumes "2 ^ Suc m dvd e"
  shows "2 ^ m dvd half_double e"
proof -
  from assms obtain x where "e = 2 ^ Suc m * x" by (elim dvdE)
  then have "e = (2 * x) * 2 ^ m" by simp
  then have "half_double e = half_double (2 * x) * 2 ^ m"
    using half_double_scale [of "2 * x" m] by simp
  then show ?thesis by simp
qed

lemma bit_step_scale:
  assumes "even (latErr st)" "even (lngErr st)"
  shows "bit_step cd (scale j st) i = scale j (bit_step cd st i)"
  using assms
  by (simp add: bit_step_def scale_def Let_def add_double_def sub_double_def
      half_double_scale flip: round_double_scale distrib_right left_diff_distrib)

lemma bit_step_dvd:
  assumes "errs_dvd (Suc m) st"
  shows "errs_dvd m (bit_step cd st i)"
proof -
  have "2 ^ m dvd x" if "2 ^ Suc m dvd x" for x :: int
    using that by (metis dvd_mult_left mult.commute power_Suc)
  then show ?thesis
    using assms by (simp add: bit_step_def errs_dvd_def Let_def half_double_dvd)
qed

lemma errs_dvd_even: "errs_dvd (Suc m) st \<Longrightarrow> even (latErr st) \<and> even (lngErr st)"
  unfolding errs_dvd_def by (metis dvd_mult_left power_Suc)

lemma five_steps_scale:
  assumes "errs_dvd (m + 5) st"
  shows "foldl (bit_step cd) (scale j st) [4, 3, 2, 1, 0] =
           scale j (foldl (bit_step cd) st [4, 3, 2, 1, 0])
       \<and> errs_dvd m (foldl (bit_step cd) st [4, 3, 2, 1, 0])"
proof -
  have d5: "errs_dvd (Suc (Suc (Suc (Suc (Suc m))))) st"
    using assms by (simp add: numeral_eq_Suc)
  note d4 = bit_step_dvd [OF d5, of cd 4]
  note d3 = bit_step_dvd [OF d4, of cd 3]
  note d2 = bit_step_dvd [OF d3, of cd 2]
  note d1 = bit_step_dvd [OF d2, of cd 1]
  note d0 = bit_step_dvd [OF d1, of cd 0]
  show ?thesis
    using d0 errs_dvd_even [OF d5] errs_dvd_even [OF d4] errs_dvd_even [OF d3]
      errs_dvd_even [OF d2] errs_dvd_even [OF d1]
    by (simp add: bit_step_scale)
qed

lemma chars_scale:
  "errs_dvd (5 * length cs) st \<Longrightarrow>
   chars (scale j st) cs = map_option (scale_coords j) (chars st cs)"
proof (induction cs arbitrary: st)
  case Nil
  show ?case by (simp add: scale_def scale_coords_def)
next
  case (Cons c cs)
  show ?case
  proof (cases "indexOf base32 c")
    case None
    then show ?thesis by simp
  next
    case (Some cd)
    have "errs_dvd (5 * length cs + 5) st" using Cons.prems by (simp add: add.commute)
    from five_steps_scale [OF this, of cd j] Cons.IH Some show ?thesis by simp
  qed
qed

text \<open>
  A geohash of at most \<open>p / 5\<close> characters is decoded on the binary64 scale as it is
  on integers with \<open>p\<close> fractional bits.
\<close>

lemma decode_small:
  assumes "5 * length cs \<le> p" "p \<le> 1074"
  shows "decodeGeohash cs = map_option (scale_coords (1074 - p)) (chars (small p) cs)"
proof -
  have "(2::int) ^ (5 * length cs) dvd 2 ^ p" using assms(1) by (rule le_imp_power_dvd)
  then have "errs_dvd (5 * length cs) (small p)" by (simp add: errs_dvd_def small_def)
  then have "chars (scale (1074 - p) (small p)) cs =
             map_option (scale_coords (1074 - p)) (chars (small p) cs)"
    by (rule chars_scale)
  moreover have "(2::int) ^ p * 2 ^ (1074 - p) = 2 ^ 1074"
    using assms(2) by (simp flip: power_add)
  then have "scale (1074 - p) (small p) =
      \<lparr>d_lat = 0, d_lng = 0, latErr = number 90, lngErr = number 180, isEven = True\<rparr>"
    by (simp add: scale_def small_def number_def mult.assoc)
  ultimately show ?thesis by (simp add: decodeGeohash_def)
qed

section \<open>Characters outside the alphabet\<close>

lemma indexOf_None: "indexOf xs c = None \<longleftrightarrow> c \<notin> set xs"
  by (induction xs) auto

lemma chars_invalid: "c \<in> set g \<Longrightarrow> c \<notin> set base32 \<Longrightarrow> chars st g = None"
proof (induction g arbitrary: st)
  case Nil
  then show ?case by simp
next
  case (Cons x xs)
  show ?case
  proof (cases "indexOf base32 x")
    case None
    then show ?thesis by simp
  next
    case (Some cd)
    then have "x \<in> set base32" using indexOf_None [of base32 x] by auto
    then have "c \<in> set xs" using Cons.prems by auto
    then show ?thesis using Some Cons.IH Cons.prems(2) by simp
  qed
qed

lemma decode_invalid: "c \<in> set g \<Longrightarrow> c \<notin> set base32 \<Longrightarrow> decodeGeohash g = None"
  by (simp add: decodeGeohash_def chars_invalid)

section \<open>The decoder on the examples of the specification\<close>

lemma small_s: "chars (small 5) ''s'' = Some \<lparr>lat = 720, lng = 720\<rparr>"
  by code_simp

lemma decode_s: "decodeGeohash ''s'' = Some \<lparr>lat = 45 * 2 ^ 1073, lng = 45 * 2 ^ 1073\<rparr>"
proof -
  have "decodeGeohash ''s'' = map_option (scale_coords (1074 - 5)) (chars (small 5) ''s'')"
    by (rule decode_small) simp_all
  also have "\<dots> = Some \<lparr>lat = 720 * 2 ^ 1069, lng = 720 * 2 ^ 1069\<rparr>"
    by (simp only: small_s) (simp add: scale_coords_def)
  finally show ?thesis by simp
qed

text \<open>
  C5. The empty string decodes to \<open>(0, 0)\<close>; \<^verbatim>\<open>"s"\<close> decodes to latitude and
  longitude \<open>22.5\<close>, positive and below 90 and 180; \<^verbatim>\<open>"a"\<close>, and every string with a
  character outside the alphabet, gives no result. The decoder is a function of its
  input.
\<close>

theorem decode_examples:
  "decodeGeohash [] = Some \<lparr>lat = 0, lng = 0\<rparr>
   \<and> (\<exists>p. decodeGeohash ''s'' = Some p
          \<and> 2 * lat p = number 45 \<and> 0 < lat p \<and> lat p < number 90
          \<and> 2 * lng p = number 45 \<and> 0 < lng p \<and> lng p < number 180)
   \<and> decodeGeohash ''a'' = None
   \<and> (c \<in> set g \<and> c \<notin> set base32 \<longrightarrow> decodeGeohash g = None)"
proof -
  have e: "decodeGeohash [] = Some \<lparr>lat = 0, lng = 0\<rparr>"
    by (simp add: decodeGeohash_def)
  have s: "\<exists>p. decodeGeohash ''s'' = Some p
          \<and> 2 * lat p = number 45 \<and> 0 < lat p \<and> lat p < number 90
          \<and> 2 * lng p = number 45 \<and> 0 < lng p \<and> lng p < number 180"
    by (simp add: decode_s number_def)
  have a: "decodeGeohash ''a'' = None"
    by (rule decode_invalid [of "CHR ''a''"]) (simp_all add: base32_def)
  show ?thesis using e s a decode_invalid by blast
qed

theorem decode_examples_witness:
  "CHR ''i'' \<in> set ''u4i'' \<and> CHR ''i'' \<notin> set base32 \<and> decodeGeohash ''u4i'' = None"
  using decode_examples [of "CHR ''i''" "''u4i''"] by (simp add: base32_def)

section \<open>Events whose geocell does not decode\<close>

lemma mapPoints_decoded:
  "p \<in> set (mapPoints rooms) \<Longrightarrow> decodeGeohash (geohash p) \<noteq> None"
  by (auto simp: mapPoints_def to_point_def split: option.splits)

text \<open>
  C6, as stated, fails: the chatroom scan does not decode anything, and an event whose
  \<^verbatim>\<open>g\<close> value has a character outside the alphabet is counted in the chatroom of
  that value.
\<close>

theorem undecodable_counterexample:
  "decodeGeohash ''a'' = None
   \<and> chatrooms (Some [ev ''1'' 1 [[''g'', ''a'']]]) =
     [\<lparr>geohash = ''a'', name = ''#a'', messageCount = 1\<rparr>]"
proof -
  have "decodeGeohash ''a'' = None"
    by (rule decode_invalid [of "CHR ''a''"]) (simp_all add: base32_def)
  moreover have "chatrooms (Some [ev ''1'' 1 [[''g'', ''a'']]]) =
     [\<lparr>geohash = ''a'', name = ''#a'', messageCount = 1\<rparr>]"
    by code_simp
  ultimately show ?thesis by simp
qed

text \<open>
  C6, amended. For an event whose non-empty \<^verbatim>\<open>g\<close> value has a character outside the
  alphabet, decoding gives no result (a value, not an exception); the chatroom of that
  value is in the chatroom list, with a count that is not zero, but it gives no map
  point; and the event is in the unfiltered view and in the view filtered by its value.
\<close>

theorem undecodable_event:
  assumes "e \<in> set evs" "getTagValue e ''g'' = Some g" "g \<noteq> []"
    and "c \<in> set g" "c \<notin> set base32"
  shows "decodeGeohash g = None
       \<and> (\<exists>r \<in> set (chatrooms (Some evs)). geohash r = g \<and> 0 < messageCount r)
       \<and> g \<notin> geohash ` set (mapPoints (chatrooms (Some evs)))
       \<and> filteredEvents (Some evs) None = Some evs
       \<and> (\<exists>fs. filteredEvents (Some evs) (Some g) = Some fs \<and> e \<in> set fs)"
proof -
  have d: "decodeGeohash g = None" using assms(4,5) by (rule decode_invalid)
  have k: "g \<in> set (geocells evs)" using assms(1-3) by (rule geocells_member)
  then have "count_list (geocells evs) g \<noteq> 0" by (simp add: count_list_0_iff)
  then have r: "\<exists>r \<in> set (chatrooms (Some evs)). geohash r = g \<and> 0 < messageCount r"
    using k
    by (intro bexI [of _ "room_of (count_list (geocells evs)) g"])
      (auto simp: room_in_chatrooms room_of_def)
  have m: "g \<notin> geohash ` set (mapPoints (chatrooms (Some evs)))"
    using d mapPoints_decoded by fastforce
  have f: "\<exists>fs. filteredEvents (Some evs) (Some g) = Some fs \<and> e \<in> set fs"
    using assms(1-3) by (simp add: filteredEvents_def)
  show ?thesis using d r m f by (simp add: filteredEvents_def)
qed

theorem undecodable_event_witness:
  "ev ''1'' 1 [[''g'', ''a'']] \<in> set [ev ''1'' 1 [[''g'', ''a'']]]
   \<and> getTagValue (ev ''1'' 1 [[''g'', ''a'']]) ''g'' = Some ''a''
   \<and> ''a'' \<noteq> [] \<and> CHR ''a'' \<in> set ''a'' \<and> CHR ''a'' \<notin> set base32
   \<and> ''a'' \<notin> geohash ` set (mapPoints (chatrooms (Some [ev ''1'' 1 [[''g'', ''a'']]])))"
proof -
  let ?e = "ev ''1'' 1 [[''g'', ''a'']]"
  have 1: "?e \<in> set [?e]" by simp
  have 2: "getTagValue ?e ''g'' = Some ''a''" by (simp add: getTagValue_def ev_def)
  have 3: "''a'' \<noteq> []" by simp
  have 4: "CHR ''a'' \<in> set ''a''" by simp
  have 5: "CHR ''a'' \<notin> set base32" by (simp add: base32_def)
  show ?thesis using 1 2 3 4 5 undecodable_event [OF 1 2 3 4 5] by simp
qed

section \<open>Bounds on rounding\<close>

lemma rne_pos:
  assumes "0 \<le> n"
  shows "0 \<le> rne s n \<and> 2 * rne s n \<le> 2 * n + 2 ^ s \<and> 2 * n \<le> 2 * rne s n + 2 ^ s"
proof (cases "n = 0")
  case True
  then show ?thesis by simp
next
  case False
  define P :: int where "P = 2 ^ s"
  define q where "q = n div P"
  define r where "r = n mod P"
  have P: "0 < P" by (simp add: P_def)
  have n: "n = P * q + r" by (simp add: q_def r_def)
  have r: "0 \<le> r" "r < P" using P by (simp_all add: r_def)
  have q: "0 \<le> q" using assms P by (simp add: q_def pos_imp_zdiv_nonneg_iff)
  have v: "rne s n = P * (if 2 * r < P \<or> (2 * r = P \<and> even q) then q else q + 1)"
    using assms False by (simp add: rne_def Let_def P_def q_def r_def)
  have pq: "0 \<le> P * q" using P q by simp
  have "0 \<le> rne s n \<and> 2 * rne s n \<le> 2 * n + P \<and> 2 * n \<le> 2 * rne s n + P"
  proof (cases "2 * r < P \<or> (2 * r = P \<and> even q)")
    case True
    then have "2 * r \<le> P" by auto
    moreover have "rne s n = P * q" using True by (simp add: v)
    ultimately show ?thesis using n r pq by linarith
  next
    case False
    then have "P \<le> 2 * r" by auto
    moreover have "rne s n = P * q + P" using False by (auto simp: v distrib_left)
    ultimately show ?thesis using n r pq P by linarith
  qed
  then show ?thesis by (simp add: P_def)
qed

lemma rne_le_power:
  assumes "0 \<le> n" "n < 2 ^ (s + 53)"
  shows "rne s n \<le> 2 ^ (s + 53)"
proof (cases "n = 0")
  case True
  then show ?thesis by simp
next
  case False
  define P :: int where "P = 2 ^ s"
  define q where "q = n div P"
  have P: "0 < P" by (simp add: P_def)
  have "n < P * 2 ^ 53" using assms(2) by (simp add: P_def power_add)
  moreover have "P * q + n mod P = n" by (simp add: q_def)
  moreover have "0 \<le> n mod P" using P by simp
  ultimately have "P * q < P * 2 ^ 53" by linarith
  then have "q < 2 ^ 53" using P by (simp only: mult_less_cancel_left_pos)
  then have "q + 1 \<le> 2 ^ 53" by simp
  then have "P * (q + 1) \<le> P * 2 ^ 53" using P by (simp only: mult_le_cancel_left_pos)
  moreover have "P * q \<le> P * (q + 1)" using P by simp
  moreover have "rne s n = P * q \<or> rne s n = P * (q + 1)"
    using assms(1) False by (simp add: rne_def Let_def P_def q_def)
  ultimately show ?thesis by (auto simp: P_def power_add)
qed

lemma round_double_minus: "round_double (- n) = - round_double n"
  by (simp add: round_double_def rne_minus)

lemma round_double_nonneg: "0 \<le> n \<Longrightarrow> 0 \<le> round_double n"
  by (simp add: round_double_def rne_pos)

lemma bitlen_le: "0 \<le> n \<Longrightarrow> n < 2 ^ w \<Longrightarrow> bitlen n \<le> int w"
  by (simp add: bitlen_le_iff_power)

text \<open>A multiple of \<open>2\<^sup>m\<close> below \<open>2\<^sup>m\<^sup>+\<^sup>5\<^sup>3\<close> in magnitude is a double.\<close>

lemma round_double_exact:
  assumes "2 ^ m dvd n" "\<bar>n\<bar> < 2 ^ (m + 53)"
  shows "round_double n = n"
proof -
  have "bitlen \<bar>n\<bar> \<le> int (m + 53)" using assms(2) by (intro bitlen_le) simp_all
  then have "nat (bitlen \<bar>n\<bar> - 53) \<le> m" by simp
  then have "(2::int) ^ nat (bitlen \<bar>n\<bar> - 53) dvd 2 ^ m" by (rule le_imp_power_dvd)
  then have "2 ^ nat (bitlen \<bar>n\<bar> - 53) dvd n" using assms(1) by (rule dvd_trans)
  then show ?thesis by (simp add: round_double_def rne_exact)
qed

text \<open>
  Rounding does not pass a multiple \<open>B\<close> of \<open>2\<^sup>m\<close> in the binade of exponent
  \<open>m + 52\<close> when the exact value is less than half a unit above \<open>B\<close>.
\<close>

lemma round_double_upper:
  assumes B: "2 ^ m dvd B" "2 ^ (m + 52) \<le> B"
    and x: "2 * x < 2 * B + 2 ^ m" "x < 2 ^ (m + 53)"
  shows "round_double x \<le> B"
proof -
  have B0: "0 \<le> B" using B(2) by (rule order_trans [rotated]) simp
  consider "x \<le> 0" | "0 < x" "x < 2 ^ (m + 52)" | "2 ^ (m + 52) \<le> x" by linarith
  then show ?thesis
  proof cases
    case 1
    then have "0 \<le> round_double (- x)" by (intro round_double_nonneg) simp
    then show ?thesis using B0 by (simp add: round_double_minus)
  next
    case 2
    show ?thesis
    proof (cases "bitlen x \<le> 53")
      case True
      then have "round_double x = x" using 2 by (simp add: round_double_def rne_exact)
      then show ?thesis using 2 B(2) by simp
    next
      case False
      define s where "s = nat (bitlen x - 53)"
      have sb: "int s + 53 = bitlen x" using False by (simp add: s_def)
      have "bitlen x \<le> int (m + 52)" using 2 by (intro bitlen_le) simp_all
      then have sm: "s + 53 \<le> m + 52" using sb by linarith
      have "x < 2 ^ nat (bitlen x)" using bitlen_bounds [OF 2(1)] by simp
      moreover have "nat (bitlen x) = s + 53" using sb by linarith
      ultimately have "x < 2 ^ (s + 53)" by simp
      then have "rne s x \<le> 2 ^ (s + 53)" using 2(1) by (intro rne_le_power) simp_all
      also have "\<dots> \<le> (2::int) ^ (m + 52)" using sm by (intro power_increasing) simp_all
      finally show ?thesis using B(2) 2(1) by (simp add: round_double_def s_def)
    qed
  next
    case 3
    then have pos: "0 < x" by (rule less_le_trans [rotated]) simp
    have "bitlen x \<le> int (m + 53)" using pos x(2) by (intro bitlen_le) simp_all
    moreover have e: "nat (int (m + 53)) - 1 = m + 52" by simp
    have "int (m + 53) \<le> bitlen x"
      unfolding bitlen_ge_iff_power e using 3 by simp
    ultimately have "nat (bitlen x - 53) = m" by simp
    then have r: "round_double x = rne m x" using pos by (simp add: round_double_def)
    obtain a where a: "rne m x = 2 ^ m * a" using rne_dvd [of m x] by (elim dvdE)
    obtain b where b: "B = 2 ^ m * b" using B(1) by (elim dvdE)
    have "2 * rne m x \<le> 2 * x + 2 ^ m" using rne_pos [of x m] pos by simp
    then have "2 * rne m x < 2 * B + 2 * 2 ^ m" using x(1) by linarith
    then have "(2::int) ^ m * (2 * a) < 2 ^ m * (2 * b + 2)"
      by (simp add: a b algebra_simps)
    then have "2 * a < 2 * b + 2" by (simp only: mult_less_cancel_left_pos zero_less_power zero_less_numeral)
    then have "a \<le> b" by simp
    then have "(2::int) ^ m * a \<le> 2 ^ m * b" by (simp only: mult_le_cancel_left_pos zero_less_power zero_less_numeral)
    then show ?thesis by (simp add: r a b)
  qed
qed

section \<open>Halving\<close>

lemma half_double_90: "half_double (90 * 2 ^ m) = 45 * 2 ^ m"
proof -
  have "half_double 90 = 45" by code_simp
  then show ?thesis using half_double_scale [of 90 m] by simp
qed

lemma half_double_bounds:
  assumes "0 \<le> a"
  shows "0 \<le> half_double a \<and> half_double a \<le> a"
proof (cases "a = 0")
  case True
  then show ?thesis by (simp add: half_double_def)
next
  case False
  then have pos: "0 < a" using assms by simp
  define s where "s = max 1 (nat (bitlen \<bar>a\<bar> - 53))"
  have h: "half_double a = rne s a div 2" by (simp add: half_double_def s_def)
  have r: "0 \<le> rne s a" "2 * rne s a \<le> 2 * a + 2 ^ s" using rne_pos [OF assms, of s] by simp_all
  have "(2::int) ^ s \<le> 2 * a"
  proof (cases "bitlen a \<le> 53")
    case True
    then have "s = 1" using pos by (simp add: s_def)
    then show ?thesis using pos by simp
  next
    case False
    then have "s = nat (bitlen a - 53)" using pos by (simp add: s_def)
    then have "s \<le> nat (bitlen a - 1)" by simp
    then have "(2::int) ^ s \<le> 2 ^ nat (bitlen a - 1)" by (intro power_increasing) simp_all
    also have "\<dots> \<le> a" using bitlen_bounds [OF pos] by simp
    finally show ?thesis using pos by simp
  qed
  then have "rne s a \<le> 2 * a" using r(2) by linarith
  then show ?thesis using r(1) by (simp add: h)
qed

section \<open>The error widths\<close>

lemma ulp_pos: "0 < ulp c"
  by (simp add: ulp_def)

lemma limit_ulp: "limit c = 90 * 2 ^ 46 * ulp c"
  by (simp add: limit_def ulp_def number_def power_add)

lemma ulp_half: "ulp c = 2 * 2 ^ (1027 + c)"
proof -
  have "1028 + c = Suc (1027 + c)" by simp
  then show ?thesis by (simp only: ulp_def power_Suc)
qed

lemma ulp_binade: "(2::int) ^ (1028 + c + 52) = 2 ^ 52 * ulp c" "(2::int) ^ (1028 + c + 53) = 2 ^ 53 * ulp c"
  by (simp_all add: ulp_def power_add)

lemma err_at_Suc: "err_at c (Suc k) = half_double (err_at c k)"
  by (simp add: err_at_def)

lemma err_at_exact: "k + m = 1074 + c \<Longrightarrow> err_at c k = 90 * 2 ^ m"
proof (induction k arbitrary: m)
  case 0
  then show ?case by (simp add: err_at_def limit_def number_def power_add)
next
  case (Suc k)
  from Suc.prems have "k + Suc m = 1074 + c" by simp
  then have "err_at c k = 90 * 2 ^ Suc m" by (rule Suc.IH)
  then have "err_at c (Suc k) = half_double (90 * 2 ^ Suc m)" by (simp only: err_at_Suc)
  also have "\<dots> = 45 * 2 ^ Suc m" by (rule half_double_90)
  finally show ?case by simp
qed

lemma err_at_nonneg: "0 \<le> err_at c k"
proof (induction k)
  case 0
  show ?case by (simp add: err_at_def limit_def number_def)
next
  case (Suc k)
  then show ?case using half_double_bounds [of "err_at c k"] by (simp add: err_at_Suc)
qed

lemma err_at_decreasing: "err_at c (k + i) \<le> err_at c k"
proof (induction i)
  case 0
  show ?case by simp
next
  case (Suc i)
  have "err_at c (Suc (k + i)) \<le> err_at c (k + i)"
    using half_double_bounds [OF err_at_nonneg, of c "k + i"] by (simp add: err_at_Suc)
  then show ?case using Suc by simp
qed

text \<open>In spacings of the doubles below the bound.\<close>

lemma err_at_ulp: "k + j = 47 \<Longrightarrow> err_at c k = ulp c * (45 * 2 ^ j)"
proof -
  assume "k + j = 47"
  then have "k + (1027 + c + j) = 1074 + c" by simp
  then have "err_at c k = 90 * 2 ^ (1027 + c + j)" by (rule err_at_exact)
  also have "\<dots> = 45 * (2 * 2 ^ (1027 + c)) * 2 ^ j" by (simp add: power_add)
  finally show ?thesis by (simp add: ulp_half)
qed

lemma slack_early: "k + j = 47 \<Longrightarrow> slack k = 45 * 2 ^ j"
  by (auto simp: slack_def)

lemma err_at_late: "i + m = 1027 + c \<Longrightarrow> err_at c (47 + i) * 2 ^ i = 45 * ulp c"
proof -
  assume a: "i + m = 1027 + c"
  then have "(47 + i) + m = 1074 + c" by simp
  then have "err_at c (47 + i) = 90 * 2 ^ m" by (rule err_at_exact)
  then have "err_at c (47 + i) * 2 ^ i = 90 * 2 ^ (i + m)" by (simp add: power_add)
  also have "\<dots> = 45 * (2 * 2 ^ (1027 + c))" by (simp add: a)
  finally show ?thesis by (simp add: ulp_half)
qed

section \<open>One step on one axis\<close>

lemma step_exact:
  assumes "ulp c dvd v" "ulp c dvd e" "0 \<le> e" "\<bar>v\<bar> \<le> limit c - 2 * e"
  shows "round_double (v + e) = v + e"
proof -
  have "\<bar>v + e\<bar> \<le> limit c" using assms(3,4) by linarith
  also have "limit c < 2 ^ 53 * ulp c" using ulp_pos [of c] by (simp add: limit_ulp)
  finally have "\<bar>v + e\<bar> < 2 ^ (1028 + c + 53)" by (simp only: ulp_binade)
  moreover have "2 ^ (1028 + c) dvd v + e" using assms(1,2) by (simp add: ulp_def)
  ultimately show ?thesis by (rule round_double_exact [rotated])
qed

lemma step_upper:
  assumes "v \<le> limit c - ulp c * d" "0 \<le> d" "0 \<le> d'" "d' \<le> 45"
    and "2 * e + 2 * (ulp c * d') < 2 * (ulp c * d) + ulp c" "e \<le> 46 * ulp c"
  shows "round_double (v + e) \<le> limit c - ulp c * d'"
proof (rule round_double_upper [where m = "1028 + c"])
  note u = ulp_pos [of c]
  have "limit c - ulp c * d' = ulp c * (90 * 2 ^ 46 - d')"
    by (simp add: limit_ulp algebra_simps)
  then show "2 ^ (1028 + c) dvd limit c - ulp c * d'" by (simp add: ulp_def)
  have d': "ulp c * d' \<le> ulp c * 45" using assms(4) u
    by (simp only: mult_le_cancel_left_pos)
  have d: "0 \<le> ulp c * d" using assms(2) u by simp
  have t: "limit c = 6333186975989760 * ulp c" by (simp add: limit_ulp)
  have "2 ^ 52 * ulp c \<le> limit c - ulp c * d'" using d' u by (simp add: t)
  then show "2 ^ (1028 + c + 52) \<le> limit c - ulp c * d'" by (simp only: ulp_binade)
  define D D' where "D = ulp c * d" and "D' = ulp c * d'"
  have "v \<le> limit c - D" "2 * e + 2 * D' < 2 * D + ulp c"
    using assms(1,5) by (simp_all add: D_def D'_def)
  then have "2 * (v + e) < 2 * (limit c - D') + ulp c" by arith
  then have "2 * (v + e) < 2 * (limit c - ulp c * d') + ulp c" by (simp add: D'_def)
  then show "2 * (v + e) < 2 * (limit c - ulp c * d') + 2 ^ (1028 + c)" by (simp add: ulp_def)
  have "v + e < 2 ^ 53 * ulp c" using assms(1,6) d u by (simp add: t)
  then show "v + e < 2 ^ (1028 + c + 53)" by (simp only: ulp_binade)
qed

text \<open>
  The step in either direction: the new value is within the new distance from the
  bound on both sides.
\<close>

lemma step_rounded:
  assumes "\<bar>v\<bar> \<le> limit c - ulp c * d" "0 \<le> d'" "d' \<le> d" "d' \<le> 45"
    and "0 \<le> e" "2 * e + 2 * (ulp c * d') < 2 * (ulp c * d) + ulp c" "e \<le> 46 * ulp c"
  shows "\<bar>round_double (v + e)\<bar> \<le> limit c - ulp c * d'"
    and "\<bar>round_double (v - e)\<bar> \<le> limit c - ulp c * d'"
proof -
  note u = ulp_pos [of c]
  have d: "0 \<le> d" using assms(2,3) by simp
  have dd: "ulp c * d' \<le> ulp c * d" using assms(3) u by (simp only: mult_le_cancel_left_pos)
  have up: "round_double (w + e) \<le> limit c - ulp c * d'" if "\<bar>w\<bar> \<le> limit c - ulp c * d" for w
    using that assms(2,4,6,7) d by (intro step_upper [where d = d]) simp_all
  have lo: "round_double (- w - e) \<le> limit c - ulp c * d'" if "\<bar>w\<bar> \<le> limit c - ulp c * d" for w
  proof -
    have eq: "(- w - 2 * e) + e = - w - e" by simp
    have "round_double ((- w - 2 * e) + e) \<le> limit c - ulp c * d'"
      using that assms(2,4,5,6,7) d by (intro step_upper [where d = d]) simp_all
    then show ?thesis by (simp only: eq)
  qed
  have "round_double (v + e) \<le> limit c - ulp c * d'" using assms(1) by (rule up)
  moreover have "- round_double (v + e) \<le> limit c - ulp c * d'"
    using lo [of v] assms(1) by (simp flip: round_double_minus)
  ultimately show "\<bar>round_double (v + e)\<bar> \<le> limit c - ulp c * d'" by simp
  have "round_double (v - e) \<le> limit c - ulp c * d'"
    using lo [of "- v"] assms(1) by simp
  moreover have "- round_double (v - e) \<le> limit c - ulp c * d'"
    using up [of "- v"] assms(1) by (simp flip: round_double_minus)
  ultimately show "\<bar>round_double (v - e)\<bar> \<le> limit c - ulp c * d'" by simp
qed

lemma slack_nonneg: "0 \<le> slack k"
  by (simp add: slack_def pos_imp_zdiv_nonneg_iff)

lemma slack_late: "53 \<le> k \<Longrightarrow> slack k = 0"
proof -
  assume k: "53 \<le> k"
  then have "(2::int) ^ 6 \<le> 2 ^ (k - 47)" by (intro power_increasing) simp_all
  then have "(45::int) < 2 ^ (k - 47)" by simp
  then show ?thesis using k by (simp add: slack_def)
qed

lemma slack_pos: "k \<le> 52 \<Longrightarrow> 1 \<le> slack k"
proof (cases "k \<le> 47")
  case True
  have "(1::int) \<le> 2 ^ (47 - k)" by simp
  then have "(1::int) \<le> 45 * 2 ^ (47 - k)" by linarith
  then show ?thesis using True by (simp only: slack_def if_True)
next
  case False
  assume "k \<le> 52"
  then have "(2::int) ^ (k - 47) \<le> 2 ^ 5" by (intro power_increasing) simp_all
  then have "(45::int) div 2 ^ 5 \<le> 45 div 2 ^ (k - 47)" by (intro zdiv_mono2) simp_all
  then show ?thesis using False by (simp add: slack_def)
qed

lemma axis_inv_minus: "axis_inv c k (- v) = axis_inv c k v"
  by (simp add: axis_inv_def)

text \<open>While the error width is a multiple of the spacing, the step is exact.\<close>

lemma axis_step_early:
  assumes "axis_inv c k v" "Suc k \<le> 47"
  shows "axis_inv c (Suc k) (round_double (v + err_at c (Suc k)))"
proof -
  obtain j where j: "Suc k + j = 47" using assms(2) by (metis le_Suc_ex)
  then have j': "k + Suc j = 47" by simp
  define e where "e = err_at c (Suc k)"
  have e: "e = ulp c * (45 * 2 ^ j)" unfolding e_def using j by (rule err_at_ulp)
  have s: "slack (Suc k) = 45 * 2 ^ j" "slack k = 45 * 2 ^ Suc j"
    using j j' by (simp_all only: slack_early)
  have e0: "0 \<le> e" using ulp_pos [of c] by (simp add: e)
  have "ulp c * slack k = 2 * e" by (simp add: s e)
  then have v: "\<bar>v\<bar> \<le> limit c - 2 * e" "ulp c dvd v"
    using assms by (simp_all add: axis_inv_def)
  have d: "ulp c dvd e" by (simp add: e)
  have "round_double (v + e) = v + e" using v(2) d e0 v(1) by (rule step_exact)
  moreover have "\<bar>v + e\<bar> \<le> limit c - e" using v(1) e0 by linarith
  moreover have "ulp c dvd v + e" using v(2) d by simp
  moreover have "ulp c * slack (Suc k) = e" by (simp add: s e)
  ultimately show ?thesis by (simp add: axis_inv_def flip: e_def)
qed

text \<open>
  From the 48th halving on, the width is a fraction of the spacing and the sum is
  rounded; the distance from the bound shrinks to nothing at the 53rd step and the
  value stays within the bound from then on.
\<close>

lemma axis_step_late:
  assumes "axis_inv c k v" "47 \<le> k"
  shows "axis_inv c (Suc k) (round_double (v + err_at c (Suc k)))"
proof -
  note u = ulp_pos [of c]
  define e where "e = err_at c (Suc k)"
  have v: "\<bar>v\<bar> \<le> limit c - ulp c * slack k" using assms(1) by (simp add: axis_inv_def)
  have e0: "0 \<le> e" by (simp add: e_def err_at_nonneg)
  have e48: "err_at c 48 * 2 = 45 * ulp c" using err_at_late [of 1 "1026 + c" c] by simp
  have "err_at c (48 + (k - 47)) \<le> err_at c 48" by (rule err_at_decreasing)
  then have ele: "2 * e \<le> 45 * ulp c" using assms(2) e48 by (simp add: e_def)
  then have e46: "e \<le> 46 * ulp c" using u by linarith
  have goal: "\<bar>round_double (v + e)\<bar> \<le> limit c - ulp c * d'"
    if "slack k = d" "0 \<le> d'" "d' \<le> d" "d' \<le> 45" "2 * e + 2 * (ulp c * d') < 2 * (ulp c * d) + ulp c"
    for d d'
    using v that e0 e46 by (intro step_rounded(1) [where d = d]) simp_all
  consider "k = 47" | "k = 48" | "k = 49" | "k = 50" | "k = 51" | "k = 52" | "53 \<le> k"
    using assms(2) by linarith
  then have "\<bar>round_double (v + e)\<bar> \<le> limit c - ulp c * slack (Suc k)"
  proof cases
    case 1
    have "e * 2 = 45 * ulp c" using e48 by (simp add: e_def 1)
    then have ineq: "2 * e + 2 * (ulp c * 22) < 2 * (ulp c * 45) + ulp c" using u by arith
    have "slack k = 45" "slack (Suc k) = 22" by (simp_all add: 1 slack_def)
    with goal [OF _ _ _ _ ineq] show ?thesis by simp
  next
    case 2
    have "e * 4 = 45 * ulp c" using err_at_late [of 2 "1025 + c" c] by (simp add: e_def 2)
    then have ineq: "2 * e + 2 * (ulp c * 11) < 2 * (ulp c * 22) + ulp c" using u by arith
    have "slack k = 22" "slack (Suc k) = 11" by (simp_all add: 2 slack_def)
    with goal [OF _ _ _ _ ineq] show ?thesis by simp
  next
    case 3
    have "e * 8 = 45 * ulp c" using err_at_late [of 3 "1024 + c" c] by (simp add: e_def 3)
    then have ineq: "2 * e + 2 * (ulp c * 5) < 2 * (ulp c * 11) + ulp c" using u by arith
    have "slack k = 11" "slack (Suc k) = 5" by (simp_all add: 3 slack_def)
    with goal [OF _ _ _ _ ineq] show ?thesis by simp
  next
    case 4
    have "e * 16 = 45 * ulp c" using err_at_late [of 4 "1023 + c" c] by (simp add: e_def 4)
    then have ineq: "2 * e + 2 * (ulp c * 2) < 2 * (ulp c * 5) + ulp c" using u by arith
    have "slack k = 5" "slack (Suc k) = 2" by (simp_all add: 4 slack_def)
    with goal [OF _ _ _ _ ineq] show ?thesis by simp
  next
    case 5
    have "e * 32 = 45 * ulp c" using err_at_late [of 5 "1022 + c" c] by (simp add: e_def 5)
    then have ineq: "2 * e + 2 * (ulp c * 1) < 2 * (ulp c * 2) + ulp c" using u by arith
    have "slack k = 2" "slack (Suc k) = 1" by (simp_all add: 5 slack_def)
    with goal [OF _ _ _ _ ineq] show ?thesis by simp
  next
    case 6
    have "e * 64 = 45 * ulp c" using err_at_late [of 6 "1021 + c" c] by (simp add: e_def 6)
    then have ineq: "2 * e + 2 * (ulp c * 0) < 2 * (ulp c * 1) + ulp c" using u by arith
    have "slack k = 1" "slack (Suc k) = 0" by (simp_all add: 6 slack_def)
    with goal [OF _ _ _ _ ineq] show ?thesis by simp
  next
    case 7
    have "err_at c (54 + (k - 53)) \<le> err_at c 54" by (rule err_at_decreasing)
    moreover have "err_at c 54 * 2 ^ 7 = 45 * ulp c" using err_at_late [of 7 "1020 + c" c] by simp
    ultimately have "128 * e \<le> 45 * ulp c" using 7 by (simp add: e_def)
    then have ineq: "2 * e + 2 * (ulp c * 0) < 2 * (ulp c * 0) + ulp c" using u by arith
    have "slack k = 0" "slack (Suc k) = 0" using 7 by (simp_all add: slack_late)
    with goal [OF _ _ _ _ ineq] show ?thesis by simp
  qed
  then show ?thesis using assms(2) by (simp add: axis_inv_def e_def)
qed

lemma axis_step:
  assumes "axis_inv c k v"
  shows "axis_inv c (Suc k) (round_double (v + err_at c (Suc k)))"
    and "axis_inv c (Suc k) (round_double (v - err_at c (Suc k)))"
proof -
  have p: "axis_inv c (Suc k) (round_double (w + err_at c (Suc k)))" if "axis_inv c k w" for w
    using that axis_step_early [of c k w] axis_step_late [of c k w] by (cases "Suc k \<le> 47") simp_all
  show "axis_inv c (Suc k) (round_double (v + err_at c (Suc k)))" using assms by (rule p)
  have "axis_inv c (Suc k) (round_double (- v + err_at c (Suc k)))"
    using assms by (intro p) (simp add: axis_inv_minus)
  then have "axis_inv c (Suc k) (- round_double (- v + err_at c (Suc k)))"
    by (simp only: axis_inv_minus)
  then show "axis_inv c (Suc k) (round_double (v - err_at c (Suc k)))"
    by (simp flip: round_double_minus)
qed

section \<open>The invariant of the decoder\<close>

lemma bit_step_inv:
  assumes "decoder_inv n st"
  shows "decoder_inv (Suc n) (bit_step cd st j)"
proof (cases "even n")
  case True
  then have i: "Suc n div 2 = n div 2" "Suc (Suc n) div 2 = Suc (n div 2)" by simp_all
  from assms True have s: "isEven st" "lngErr st = err_at 1 (n div 2)"
    "latErr st = err_at 0 (n div 2)" "axis_inv 0 (n div 2) (d_lat st)"
    "axis_inv 1 (n div 2) (d_lng st)"
    by (simp_all add: decoder_inv_def i)
  show ?thesis
    using True s axis_step [OF s(5)]
    by (simp add: decoder_inv_def bit_step_def Let_def i add_double_def sub_double_def
        err_at_Suc)
next
  case False
  then have i: "Suc n div 2 = Suc (n div 2)" "Suc (Suc n) div 2 = Suc (n div 2)" by simp_all
  from assms False have s: "\<not> isEven st" "lngErr st = err_at 1 (Suc (n div 2))"
    "latErr st = err_at 0 (n div 2)" "axis_inv 0 (n div 2) (d_lat st)"
    "axis_inv 1 (Suc (n div 2)) (d_lng st)"
    by (simp_all add: decoder_inv_def i)
  show ?thesis
    using False s axis_step [OF s(4)]
    by (simp add: decoder_inv_def bit_step_def Let_def i add_double_def sub_double_def
        err_at_Suc)
qed

lemma five_steps_inv:
  assumes "decoder_inv n st"
  shows "decoder_inv (n + 5) (foldl (bit_step cd) st [4, 3, 2, 1, 0])"
proof -
  note d1 = bit_step_inv [OF assms, of cd 4]
  note d2 = bit_step_inv [OF d1, of cd 3]
  note d3 = bit_step_inv [OF d2, of cd 2]
  note d4 = bit_step_inv [OF d3, of cd 1]
  note d5 = bit_step_inv [OF d4, of cd 0]
  have e: "n + 5 = Suc (Suc (Suc (Suc (Suc n))))" by simp
  show ?thesis unfolding e using d5 by simp
qed

lemma chars_inv:
  "decoder_inv n st \<Longrightarrow> chars st cs = Some p \<Longrightarrow>
   axis_inv 0 ((n + 5 * length cs) div 2) (lat p)
   \<and> axis_inv 1 (Suc (n + 5 * length cs) div 2) (lng p)"
proof (induction cs arbitrary: n st)
  case Nil
  then show ?case by (auto simp: decoder_inv_def)
next
  case (Cons x xs)
  then obtain cd where cd: "indexOf base32 x = Some cd"
    by (cases "indexOf base32 x") simp_all
  let ?st = "foldl (bit_step cd) st [4, 3, 2, 1, 0]"
  have "decoder_inv (n + 5) ?st" using Cons.prems(1) by (rule five_steps_inv)
  moreover have "chars ?st xs = Some p" using Cons.prems(2) cd by simp
  ultimately have "axis_inv 0 ((n + 5 + 5 * length xs) div 2) (lat p)
     \<and> axis_inv 1 (Suc (n + 5 + 5 * length xs) div 2) (lng p)"
    by (rule Cons.IH)
  moreover have "n + 5 + 5 * length xs = n + 5 * length (x # xs)" by simp
  ultimately show ?case by (simp only:)
qed

lemma decoder_inv_init:
  "decoder_inv 0 \<lparr>d_lat = 0, d_lng = 0, latErr = number 90, lngErr = number 180, isEven = True\<rparr>"
proof -
  have "ulp c * slack 0 = limit c" for c
    using err_at_ulp [of 0 47 c] slack_early [of 0 47] by (simp add: err_at_def)
  then have "axis_inv c 0 0" for c by (simp add: axis_inv_def)
  moreover have "err_at 0 0 = number 90" "err_at 1 0 = number 180"
    by (simp_all add: err_at_def limit_def number_def)
  ultimately show ?thesis by (simp add: decoder_inv_def)
qed

lemma decode_inv:
  assumes "decodeGeohash g = Some p"
  shows "\<bar>lat p\<bar> \<le> number 90 - ulp 0 * slack (5 * length g div 2)"
    and "\<bar>lng p\<bar> \<le> number 180 - ulp 1 * slack (Suc (5 * length g) div 2)"
proof -
  have "axis_inv 0 ((0 + 5 * length g) div 2) (lat p)
     \<and> axis_inv 1 (Suc (0 + 5 * length g) div 2) (lng p)"
    using decoder_inv_init assms unfolding decodeGeohash_def by (rule chars_inv)
  moreover have "limit 0 = number 90" "limit 1 = number 180"
    by (simp_all add: limit_def number_def)
  ultimately show "\<bar>lat p\<bar> \<le> number 90 - ulp 0 * slack (5 * length g div 2)"
    and "\<bar>lng p\<bar> \<le> number 180 - ulp 1 * slack (Suc (5 * length g) div 2)"
    by (simp_all add: axis_inv_def)
qed

section \<open>The range of the decoded coordinates\<close>

lemma small_z22:
  "chars (small 110) ''zzzzzzzzzzzzzzzzzzzzzz'' = Some \<lparr>lat = 90 * 2 ^ 110, lng = 180 * 2 ^ 110\<rparr>"
  by code_simp

text \<open>
  C9, as stated, fails: in binary64 arithmetic the sums round up to the bounds. For
  twenty-two characters \<^verbatim>\<open>z\<close> the decoder returns latitude 90 and longitude 180.
\<close>

theorem decode_bounds_counterexample:
  "decodeGeohash ''zzzzzzzzzzzzzzzzzzzzzz'' = Some \<lparr>lat = number 90, lng = number 180\<rparr>
   \<and> \<not> lat \<lparr>lat = number 90, lng = number 180\<rparr> < number 90
   \<and> \<not> lng \<lparr>lat = number 90, lng = number 180\<rparr> < number 180"
proof -
  have "decodeGeohash ''zzzzzzzzzzzzzzzzzzzzzz'' =
        map_option (scale_coords (1074 - 110)) (chars (small 110) ''zzzzzzzzzzzzzzzzzzzzzz'')"
    by (rule decode_small) simp_all
  also have "\<dots> = Some \<lparr>lat = 90 * 2 ^ 110 * 2 ^ 964, lng = 180 * 2 ^ 110 * 2 ^ 964\<rparr>"
    by (simp only: small_z22) (simp add: scale_coords_def)
  also have "\<dots> = Some \<lparr>lat = number 90, lng = number 180\<rparr>"
    by (simp add: number_def)
  finally show ?thesis by simp
qed

text \<open>
  C9, amended. Whenever the decoder succeeds, the latitude is between \<open>-90\<close> and
  \<open>90\<close> and the longitude between \<open>-180\<close> and \<open>180\<close>, the bounds included; for
  an input of at most twenty characters they are strictly inside these bounds.
\<close>

theorem decode_bounds:
  assumes "decodeGeohash g = Some p"
  shows "- number 90 \<le> lat p \<and> lat p \<le> number 90
       \<and> - number 180 \<le> lng p \<and> lng p \<le> number 180
       \<and> (length g \<le> 20 \<longrightarrow>
            - number 90 < lat p \<and> lat p < number 90
            \<and> - number 180 < lng p \<and> lng p < number 180)"
proof -
  note b = decode_inv [OF assms]
  have n: "0 \<le> ulp c * slack k" for c k
    using ulp_pos [of c] slack_nonneg [of k] by simp
  have s: "0 < ulp c * slack k" if "k \<le> 52" for c k
    using ulp_pos [of c] slack_pos [OF that] by simp
  have weak: "- number 90 \<le> lat p \<and> lat p \<le> number 90
       \<and> - number 180 \<le> lng p \<and> lng p \<le> number 180"
    using b n [of 0 "5 * length g div 2"] n [of 1 "Suc (5 * length g) div 2"] by linarith
  have strict: "- number 90 < lat p \<and> lat p < number 90
       \<and> - number 180 < lng p \<and> lng p < number 180" if "length g \<le> 20"
  proof -
    from that have "5 * length g div 2 \<le> 52" "Suc (5 * length g) div 2 \<le> 52" by simp_all
    then have "0 < ulp 0 * slack (5 * length g div 2)"
      "0 < ulp 1 * slack (Suc (5 * length g) div 2)"
      by (simp_all only: s)
    then show ?thesis using b by linarith
  qed
  show ?thesis using weak strict by blast
qed

theorem decode_bounds_witness:
  "decodeGeohash ''s'' = Some \<lparr>lat = 45 * 2 ^ 1073, lng = 45 * 2 ^ 1073\<rparr>
   \<and> length ''s'' \<le> 20
   \<and> - number 90 < (45 * 2 ^ 1073 :: int) \<and> (45 * 2 ^ 1073 :: int) < number 90"
proof -
  note d = decode_s
  show ?thesis using d decode_bounds [OF d] by simp
qed

end
